theory Spec2Isabelle
  imports Main "HOL-Library.Sublist" "HOL-Library.Multiset"
begin

section \<open>Python values seen by \<open>unpack_message\<close>\<close>

text \<open>
  \<open>get_data.py\<close> inspects a value with three tests only: \<open>hasattr(v, "__slots__")\<close>,
  \<open>isinstance(v, list)\<close>, and neither. A value with \<open>__slots__\<close> is a message: the list
  of its slot names, in the order of \<open>__slots__\<close>, each with what \<open>getattr\<close> returns
  for it (\<open>None\<close> when the attribute was never assigned, where \<open>getattr\<close> raises
  \<open>AttributeError\<close>). Everything that is neither a message nor a list is stored whole
  by the code: a scalar (int, float, bool, str, bytes) or any other object.
\<close>

datatype scalar =
    SInt int
  | SFloat int int
  | SBool bool
  | SStr string
  | SBytes "nat list"

datatype pyval =
    Scalar scalar
  | Unknown string
  | PList "pyval list"
  | Msg "(string \<times> pyval option) list"

datatype py_error =
    AttributeError string
  | KeyError string
  | TypeError
  | ValueError
  | RuntimeError string


subsection \<open>Dictionaries and Series\<close>

text \<open>
  A Python \<open>dict\<close> keeps its keys in insertion order; assigning to a key that is
  present replaces the value in place, assigning to a new key appends it.
  \<open>pd.Series(d)\<close> has the keys of \<open>d\<close> as its index, in that order.
\<close>

type_synonym series = "(string \<times> pyval) list"

fun dict_set :: "series \<Rightarrow> string \<Rightarrow> pyval \<Rightarrow> series" where
  "dict_set [] k v = [(k, v)]"
| "dict_set ((k', v') # d) k v =
     (if k' = k then (k, v) # d else (k', v') # dict_set d k v)"

text \<open>\<open>d.update(other)\<close>: \<open>d[k] = other[k]\<close> for each key of \<open>other\<close>, in order.\<close>

fun dict_update :: "series \<Rightarrow> series \<Rightarrow> series" where
  "dict_update d [] = d"
| "dict_update d ((k, v) # other) = dict_update (dict_set d k v) other"

subsection \<open>Formatting a list index\<close>

text \<open>\<open>f"{idx}"\<close> of a non-negative int: its decimal digits, no leading zero.\<close>

definition digit_char :: "nat \<Rightarrow> char" where
  "digit_char n = char_of (48 + n)"

fun str_nat :: "nat \<Rightarrow> string" where
  "str_nat n = (if n < 10 then [digit_char n] else str_nat (n div 10) @ [digit_char (n mod 10)])"

declare str_nat.simps [simp del]

definition index_key :: "string \<Rightarrow> string \<Rightarrow> nat \<Rightarrow> string" where
  "index_key pfx slot idx = pfx @ slot @ ''['' @ str_nat idx @ '']''"

section \<open>\<open>unpack_message\<close>\<close>

text \<open>
  \<open>store_nested\<close> is the loop \<open>for nested_key in nested_data.index\<close> (lines 232-235),
  \<open>unpack_items\<close> the loop \<open>for idx, item in enumerate(value)\<close> (lines 237-244) and
  \<open>unpack_slots\<close> the loop \<open>for slot in msg.__slots__\<close> (lines 226-247); each threads
  the dictionary \<open>unpacked_data\<close>. The nested message of line 231 is unpacked with the
  default prefix, the empty string.
\<close>

fun store_nested :: "string \<Rightarrow> string \<Rightarrow> series \<Rightarrow> series \<Rightarrow> series" where
  "store_nested pfx slot [] d = d"
| "store_nested pfx slot ((nested_key, nested_value) # nested_data) d =
     store_nested pfx slot nested_data (dict_set d (pfx @ slot @ nested_key) nested_value)"

fun unpack_message :: "pyval \<Rightarrow> string \<Rightarrow> py_error + series"
  and unpack_slots :: "(string \<times> pyval option) list \<Rightarrow> string \<Rightarrow> series \<Rightarrow> py_error + series"
  and unpack_items :: "pyval list \<Rightarrow> nat \<Rightarrow> string \<Rightarrow> string \<Rightarrow> series \<Rightarrow> py_error + series"
where
  "unpack_message (Msg slots) pfx = unpack_slots slots pfx []"
| "unpack_message (PList items) pfx = Inr []"
| "unpack_message (Scalar s) pfx = Inr []"
| "unpack_message (Unknown u) pfx = Inr []"
| "unpack_slots [] pfx d = Inr d"
| "unpack_slots ((slot, None) # rest) pfx d = Inl (AttributeError slot)"
| "unpack_slots ((slot, Some (Msg fs)) # rest) pfx d =
     (case unpack_message (Msg fs) [] of
        Inl e \<Rightarrow> Inl e
      | Inr nested_data \<Rightarrow> unpack_slots rest pfx (store_nested pfx slot nested_data d))"
| "unpack_slots ((slot, Some (PList items)) # rest) pfx d =
     (case unpack_items items 0 pfx slot d of
        Inl e \<Rightarrow> Inl e
      | Inr d' \<Rightarrow> unpack_slots rest pfx d')"
| "unpack_slots ((slot, Some (Scalar s)) # rest) pfx d =
     unpack_slots rest pfx (dict_set d (pfx @ slot) (Scalar s))"
| "unpack_slots ((slot, Some (Unknown u)) # rest) pfx d =
     unpack_slots rest pfx (dict_set d (pfx @ slot) (Unknown u))"
| "unpack_items [] idx pfx slot d = Inr d"
| "unpack_items (Msg fs # items) idx pfx slot d =
     (case unpack_message (Msg fs) (index_key pfx slot idx) of
        Inl e \<Rightarrow> Inl e
      | Inr nested_data \<Rightarrow> unpack_items items (Suc idx) pfx slot (dict_update d nested_data))"
| "unpack_items (PList xs # items) idx pfx slot d =
     unpack_items items (Suc idx) pfx slot (dict_set d (index_key pfx slot idx) (PList xs))"
| "unpack_items (Scalar s # items) idx pfx slot d =
     unpack_items items (Suc idx) pfx slot (dict_set d (index_key pfx slot idx) (Scalar s))"
| "unpack_items (Unknown u # items) idx pfx slot d =
     unpack_items items (Suc idx) pfx slot (dict_set d (index_key pfx slot idx) (Unknown u))"

subsection \<open>Structural paths\<close>

text \<open>
  The specification speaks of the structural path of a flattened value: the field names
  and list indices that lead to it. \<open>leaves\<close> lists, in traversal order, the path and
  the value of every assignment to \<open>unpacked_data\<close> that \<open>unpack_message\<close> makes on a
  message whose slots are all set; \<open>path_key\<close> is the string the code builds for a
  path: the prefix, then the field names as they are and every index as \<open>[i]\<close>,
  with nothing between them. These two follow the specification's notion of a path and
  are compared with the code below (\<open>unpack_message_leaves\<close>).
\<close>

datatype step = Field string | Index nat

fun step_str :: "step \<Rightarrow> string" where
  "step_str (Field name) = name"
| "step_str (Index i) = ''['' @ str_nat i @ '']''"

definition path_key :: "string \<Rightarrow> step list \<Rightarrow> string" where
  "path_key pfx p = pfx @ concat (map step_str p)"

definition under :: "step \<Rightarrow> (step list \<times> pyval) list \<Rightarrow> (step list \<times> pyval) list" where
  "under s ls = map (apfst ((#) s)) ls"

fun leaves :: "pyval \<Rightarrow> (step list \<times> pyval) list"
  and slot_leaves :: "(string \<times> pyval option) list \<Rightarrow> (step list \<times> pyval) list"
  and item_leaves :: "pyval list \<Rightarrow> nat \<Rightarrow> (step list \<times> pyval) list"
where
  "leaves (Msg slots) = slot_leaves slots"
| "leaves (PList items) = []"
| "leaves (Scalar s) = []"
| "leaves (Unknown u) = []"
| "slot_leaves [] = []"
| "slot_leaves ((slot, None) # rest) = slot_leaves rest"
| "slot_leaves ((slot, Some (Msg fs)) # rest) =
     under (Field slot) (leaves (Msg fs)) @ slot_leaves rest"
| "slot_leaves ((slot, Some (PList items)) # rest) =
     under (Field slot) (item_leaves items 0) @ slot_leaves rest"
| "slot_leaves ((slot, Some (Scalar s)) # rest) = ([Field slot], Scalar s) # slot_leaves rest"
| "slot_leaves ((slot, Some (Unknown u)) # rest) = ([Field slot], Unknown u) # slot_leaves rest"
| "item_leaves [] idx = []"
| "item_leaves (Msg fs # items) idx =
     under (Index idx) (leaves (Msg fs)) @ item_leaves items (Suc idx)"
| "item_leaves (PList xs # items) idx = ([Index idx], PList xs) # item_leaves items (Suc idx)"
| "item_leaves (Scalar s # items) idx = ([Index idx], Scalar s) # item_leaves items (Suc idx)"
| "item_leaves (Unknown u # items) idx = ([Index idx], Unknown u) # item_leaves items (Suc idx)"

definition keyed :: "string \<Rightarrow> (step list \<times> pyval) list \<Rightarrow> series" where
  "keyed pfx ls = map (apfst (path_key pfx)) ls"

text \<open>
  \<open>slots_set\<close>: every slot of the message, and of every message below it, has been
  assigned, as the constructor of a generated ROS 2 message class does.
\<close>

fun slots_set :: "pyval \<Rightarrow> bool"
  and slots_set_fields :: "(string \<times> pyval option) list \<Rightarrow> bool"
  and slots_set_items :: "pyval list \<Rightarrow> bool"
where
  "slots_set (Msg slots) = slots_set_fields slots"
| "slots_set (PList items) = slots_set_items items"
| "slots_set (Scalar s) = True"
| "slots_set (Unknown u) = True"
| "slots_set_fields [] = True"
| "slots_set_fields ((slot, None) # rest) = False"
| "slots_set_fields ((slot, Some v) # rest) = (slots_set v \<and> slots_set_fields rest)"
| "slots_set_items [] = True"
| "slots_set_items (v # items) = (slots_set v \<and> slots_set_items items)"

text \<open>
  \<open>prefix_free\<close>: in every message of the tree, no slot name is a prefix of the name of
  another slot of the same message (so the names are distinct as well).
\<close>

fun incomparable :: "string \<Rightarrow> string list \<Rightarrow> bool" where
  "incomparable n [] = True"
| "incomparable n (m # ms) = (\<not> prefix n m \<and> \<not> prefix m n \<and> incomparable n ms)"

fun prefix_free :: "pyval \<Rightarrow> bool"
  and prefix_free_slots :: "(string \<times> pyval option) list \<Rightarrow> bool"
  and prefix_free_items :: "pyval list \<Rightarrow> bool"
where
  "prefix_free (Msg slots) = prefix_free_slots slots"
| "prefix_free (PList items) = True"
| "prefix_free (Scalar s) = True"
| "prefix_free (Unknown u) = True"
| "prefix_free_slots [] = True"
| "prefix_free_slots ((slot, None) # rest) =
     (incomparable slot (map fst rest) \<and> prefix_free_slots rest)"
| "prefix_free_slots ((slot, Some (Msg fs)) # rest) =
     (incomparable slot (map fst rest) \<and> prefix_free (Msg fs) \<and> prefix_free_slots rest)"
| "prefix_free_slots ((slot, Some (PList items)) # rest) =
     (incomparable slot (map fst rest) \<and> prefix_free_items items \<and> prefix_free_slots rest)"
| "prefix_free_slots ((slot, Some (Scalar s)) # rest) =
     (incomparable slot (map fst rest) \<and> prefix_free_slots rest)"
| "prefix_free_slots ((slot, Some (Unknown u)) # rest) =
     (incomparable slot (map fst rest) \<and> prefix_free_slots rest)"
| "prefix_free_items [] = True"
| "prefix_free_items (Msg fs # items) = (prefix_free (Msg fs) \<and> prefix_free_items items)"
| "prefix_free_items (PList xs # items) = prefix_free_items items"
| "prefix_free_items (Scalar s # items) = prefix_free_items items"
| "prefix_free_items (Unknown u # items) = prefix_free_items items"

subsection \<open>Example messages\<close>

text \<open>
  The record \<open>{positions: [{x:1, y:2}, {x:3, y:4}]}\<close> of the specification, and a
  message in which two different paths spell the same string.
\<close>

definition positions_msg :: pyval where
  "positions_msg = Msg [(''positions'', Some (PList
     [Msg [(''x'', Some (Scalar (SInt 1))), (''y'', Some (Scalar (SInt 2)))],
      Msg [(''x'', Some (Scalar (SInt 3))), (''y'', Some (Scalar (SInt 4)))]]))]"

definition colliding_msg :: pyval where
  "colliding_msg = Msg
     [(''a'', Some (Msg [(''bc'', Some (Scalar (SInt 1)))])),
      (''ab'', Some (Msg [(''c'', Some (Scalar (SInt 2)))]))]"

definition nested_msg :: pyval where
  "nested_msg = Msg [(''a'', Some (Msg [(''b'', Some (Scalar (SInt 1)))]))]"

subsection \<open>The entries of one list element\<close>




section \<open>Tables\<close>




subsection \<open>\<open>pd.concat(dataframes, axis=0)\<close>\<close>





subsection \<open>\<open>sort_index()\<close>\<close>




subsection \<open>\<open>join_csv_files\<close>\<close>




subsection \<open>Example tables\<close>







section \<open>Reading a bag\<close>








section \<open>Building the table of a topic\<close>










subsection \<open>The batch job of \<open>distribute_csv_files.py\<close>\<close>





subsection \<open>Example bags\<close>




section \<open>Finding the bag files\<close>

text \<open>
  The file system is a tree: a file, or a directory with its entries in the order
  \<open>os.scandir\<close> lists them. A path is the list of the names from the root of the file
  system; \<open>os.path.join(root, file)\<close> adds a name, and \<open>..\<close> after a directory leads
  to its parent (the root is its own parent). Symbolic links are not modelled.
\<close>

datatype fsnode = File | Dir "(string \<times> fsnode) list"

type_synonym path = "string list"

fun lookup :: "fsnode \<Rightarrow> path \<Rightarrow> fsnode option"
  and lookup_entries :: "(string \<times> fsnode) list \<Rightarrow> string \<Rightarrow> path \<Rightarrow> fsnode option"
where
  "lookup n [] = Some n"
| "lookup File (c # cs) = None"
| "lookup (Dir entries) (c # cs) = lookup_entries entries c cs"
| "lookup_entries [] c cs = None"
| "lookup_entries ((name, n) # entries) c cs =
     (if name = c then lookup n cs else lookup_entries entries c cs)"









section \<open>Facts about dictionaries\<close>

lemma dict_set_keys: "fst ` set (dict_set d k v) = insert k (fst ` set d)"
proof (induction d)
  case Nil
  then show ?case by simp
next
  case (Cons a d)
  then show ?case by (cases a) (simp add: insert_commute)
qed

lemma dict_set_fresh: "k \<notin> fst ` set d \<Longrightarrow> dict_set d k v = d @ [(k, v)]"
  by (induction d) auto

lemma dict_set_distinct: "distinct (map fst d) \<Longrightarrow> distinct (map fst (dict_set d k v))"
  by (induction d) (auto simp: dict_set_keys)

lemma dict_update_keys: "fst ` set (dict_update d xs) = fst ` set d \<union> fst ` set xs"
  by (induction d xs rule: dict_update.induct) (auto simp: dict_set_keys)


lemma dict_update_append: "dict_update d (xs @ ys) = dict_update (dict_update d xs) ys"
  by (induction d xs rule: dict_update.induct) auto

lemma dict_update_fresh:
  "distinct (map fst xs) \<Longrightarrow> fst ` set d \<inter> fst ` set xs = {} \<Longrightarrow> dict_update d xs = d @ xs"
proof (induction d xs rule: dict_update.induct)
  case (1 d)
  then show ?case by simp
next
  case (2 d k v other)
  then show ?case by (auto simp: dict_set_fresh dict_set_keys)
qed

lemma dict_set_rekey:
  "inj f \<Longrightarrow> map (apfst f) (dict_set d k v) = dict_set (map (apfst f) d) (f k) v"
  by (induction d) (auto simp: inj_eq)

lemma dict_update_rekey:
  "inj f \<Longrightarrow> map (apfst f) (dict_update d xs) = dict_update (map (apfst f) d) (map (apfst f) xs)"
  by (induction d xs rule: dict_update.induct) (auto simp: dict_set_rekey)

lemma dict_set_twice: "dict_set (dict_set d k v) k w = dict_set d k w"
  by (induction d) auto

lemma dict_set_commute: "k \<noteq> k' \<Longrightarrow> k \<in> fst ` set d \<Longrightarrow>
  dict_set (dict_set d k' v') k v = dict_set (dict_set d k v) k' v'"
proof (induction d)
  case Nil
  then show ?case by simp
next
  case (Cons a d)
  then show ?case by (cases a) (auto simp: image_iff)
qed

lemma dict_set_after_update:
  "k \<in> fst ` set d \<Longrightarrow> k \<notin> fst ` set e \<Longrightarrow>
   dict_set (dict_update d e) k v = dict_update (dict_set d k v) e"
proof (induction d e rule: dict_update.induct)
  case (1 d)
  then show ?case by simp
next
  case (2 d k' v' other)
  then show ?case by (auto simp: dict_set_keys dict_set_commute)
qed

lemma dict_update_set_inner:
  "distinct (map fst e) \<Longrightarrow> dict_update d (dict_set e k v) = dict_set (dict_update d e) k v"
proof (induction e arbitrary: d)
  case Nil
  then show ?case by simp
next
  case (Cons a e)
  obtain k' v' where a: "a = (k', v')" by (cases a)
  show ?case
  proof (cases "k' = k")
    case True
    with Cons a show ?thesis
      by (simp add: dict_set_after_update dict_set_keys dict_set_twice)
  next
    case False
    with Cons a show ?thesis by simp
  qed
qed

lemma dict_update_absorb:
  "distinct (map fst e) \<Longrightarrow> dict_update d (dict_update e xs) = dict_update (dict_update d e) xs"
proof (induction e xs arbitrary: d rule: dict_update.induct)
  case (1 e)
  then show ?case by simp
next
  case (2 e k v other)
  then show ?case by (simp add: dict_set_distinct dict_update_set_inner)
qed


section \<open>Decimal indices\<close>

lemma digit_char_code: "n < 10 \<Longrightarrow> (of_char (digit_char n) :: nat) = 48 + n"
  by (simp add: digit_char_def)

lemma digit_char_inj:
  assumes "n < 10" and "m < 10" and "digit_char n = digit_char m"
  shows "n = m"
proof -
  have "(of_char (digit_char n) :: nat) = of_char (digit_char m)"
    using assms(3) by (rule arg_cong)
  then have "48 + n = 48 + m"
    unfolding digit_char_code [OF assms(1)] digit_char_code [OF assms(2)] .
  then show ?thesis by arith
qed

lemma digit_char_not_bracket:
  assumes "n < 10"
  shows "digit_char n \<noteq> CHR '']''"
proof
  assume "digit_char n = CHR '']''"
  then have "(of_char (digit_char n) :: nat) = of_char (CHR '']'')" by (rule arg_cong)
  then have "48 + n = (93::nat)" unfolding digit_char_code [OF assms] by simp
  with assms show False by arith
qed

lemma first_sep_split:
  "c \<notin> set a \<Longrightarrow> c \<notin> set b \<Longrightarrow> a @ c # x = b @ c # y \<Longrightarrow> a = b \<and> x = y"
proof (induction a arbitrary: b)
  case Nil
  then show ?case by (cases b) auto
next
  case (Cons h a)
  then show ?case by (cases b) auto
qed

lemma str_nat_not_Nil: "str_nat n \<noteq> []"
  by (subst str_nat.simps) simp

lemma str_nat_no_bracket: "CHR '']'' \<notin> set (str_nat n)"
proof (induction n rule: str_nat.induct)
  case (1 n)
  show ?case
  proof (cases "n < 10")
    case True
    then show ?thesis using digit_char_not_bracket [of n] by (subst str_nat.simps) auto
  next
    case False
    then show ?thesis using 1 digit_char_not_bracket [of "n mod 10"]
      by (subst str_nat.simps) auto
  qed
qed

lemma str_nat_inj: "str_nat n = str_nat m \<Longrightarrow> n = m"
proof (induction n arbitrary: m rule: str_nat.induct)
  case (1 n)
  show ?case
  proof (cases "n < 10")
    case n: True
    show ?thesis
    proof (cases "m < 10")
      case True
      with n 1(2) show ?thesis
        by (simp add: str_nat.simps [of n] str_nat.simps [of m] digit_char_inj)
    next
      case False
      with n 1(2) show ?thesis
        using str_nat_not_Nil [of "m div 10"]
        by (simp add: str_nat.simps [of n] str_nat.simps [of m])
    qed
  next
    case n: False
    show ?thesis
    proof (cases "m < 10")
      case True
      with n 1(2) show ?thesis
        using str_nat_not_Nil [of "n div 10"]
        by (simp add: str_nat.simps [of n] str_nat.simps [of m])
    next
      case False
      with n 1(2) have a: "str_nat (n div 10) = str_nat (m div 10)"
        and b: "digit_char (n mod 10) = digit_char (m mod 10)"
        by (simp_all add: str_nat.simps [of n] str_nat.simps [of m])
      from 1(1) [OF n a] have "n div 10 = m div 10" .
      moreover from b have "n mod 10 = m mod 10" by (simp add: digit_char_inj)
      ultimately show ?thesis by (metis div_mult_mod_eq)
    qed
  qed
qed

lemma index_suffix_inj:
  "''['' @ str_nat i @ '']'' @ x = ''['' @ str_nat j @ '']'' @ y \<Longrightarrow> i = j \<and> x = y"
proof -
  assume "''['' @ str_nat i @ '']'' @ x = ''['' @ str_nat j @ '']'' @ y"
  then have "str_nat i @ CHR '']'' # x = str_nat j @ CHR '']'' # y" by simp
  then have "str_nat i = str_nat j \<and> x = y"
    using str_nat_no_bracket [of i] str_nat_no_bracket [of j]
    by (rule first_sep_split [rotated 2])
  then show ?thesis by (simp add: str_nat_inj)
qed

lemma str_nat_0: "str_nat 0 = ''0''"
  by code_simp

lemma str_nat_1: "str_nat (Suc 0) = ''1''"
  by code_simp

section \<open>The code against the structural paths\<close>

lemma store_nested_eq:
  "store_nested pfx slot nd d = dict_update d (map (apfst ((@) (pfx @ slot))) nd)"
  by (induction pfx slot nd d rule: store_nested.induct) auto

lemma path_key_Cons: "path_key pfx (s # p) = path_key (pfx @ step_str s) p"
  by (simp add: path_key_def)

lemma keyed_under: "keyed pfx (under s ls) = keyed (pfx @ step_str s) ls"
  by (simp add: keyed_def under_def path_key_Cons comp_def apfst_def map_prod_def case_prod_beta)

lemma keyed_append: "keyed pfx (xs @ ys) = keyed pfx xs @ keyed pfx ys"
  by (simp add: keyed_def)

lemma keyed_rekey: "map (apfst ((@) q)) (keyed pfx ls) = keyed (q @ pfx) ls"
  by (simp add: keyed_def path_key_def comp_def apfst_def map_prod_def case_prod_beta)

lemma unpack_leaves_aux:
  "(unpack_message msg pfx = Inr r \<longrightarrow> r = dict_update [] (keyed pfx (leaves msg)))"
  "(unpack_slots slots pfx d = Inr r \<longrightarrow> r = dict_update d (keyed pfx (slot_leaves slots)))"
  "(unpack_items items idx pfx slot d = Inr r \<longrightarrow>
      r = dict_update d (keyed (pfx @ slot) (item_leaves items idx)))"
proof (induction msg pfx and slots pfx d and items idx pfx slot d arbitrary: r and r and r
    rule: unpack_message_unpack_slots_unpack_items.induct)
  case (7 slot fs rest pfx d)
  show ?case
  proof
    assume a: "unpack_slots ((slot, Some (Msg fs)) # rest) pfx d = Inr r"
    then obtain nd where nd: "unpack_message (Msg fs) [] = Inr nd"
      and r: "unpack_slots rest pfx (store_nested pfx slot nd d) = Inr r"
      by (auto split: sum.splits)
    from 7(1) nd have nd_eq: "nd = dict_update [] (keyed [] (leaves (Msg fs)))" by blast
    have inj: "inj ((@) (pfx @ slot))" by (rule injI) simp
    have "map (apfst ((@) (pfx @ slot))) nd =
        dict_update [] (keyed (pfx @ slot) (leaves (Msg fs)))"
      unfolding nd_eq dict_update_rekey [OF inj] keyed_rekey by simp
    then have "store_nested pfx slot nd d = dict_update d (keyed (pfx @ slot) (leaves (Msg fs)))"
      by (simp add: store_nested_eq dict_update_absorb)
    moreover from 7(2)[OF nd] r
    have "r = dict_update (store_nested pfx slot nd d) (keyed pfx (slot_leaves rest))" by blast
    ultimately show "r = dict_update d (keyed pfx (slot_leaves ((slot, Some (Msg fs)) # rest)))"
      by (simp add: keyed_append keyed_under dict_update_append)
  qed
next
  case (8 slot items rest pfx d)
  show ?case
  proof
    assume a: "unpack_slots ((slot, Some (PList items)) # rest) pfx d = Inr r"
    then obtain d' where d': "unpack_items items 0 pfx slot d = Inr d'"
      and r: "unpack_slots rest pfx d' = Inr r"
      by (auto split: sum.splits)
    from 8(1) d' have "d' = dict_update d (keyed (pfx @ slot) (item_leaves items 0))" by blast
    moreover from 8(2)[OF d'] r have "r = dict_update d' (keyed pfx (slot_leaves rest))" by blast
    ultimately show "r = dict_update d (keyed pfx (slot_leaves ((slot, Some (PList items)) # rest)))"
      by (simp add: keyed_append keyed_under dict_update_append)
  qed
next
  case (12 fs items idx pfx slot d)
  show ?case
  proof
    assume a: "unpack_items (Msg fs # items) idx pfx slot d = Inr r"
    then obtain nd where nd: "unpack_message (Msg fs) (index_key pfx slot idx) = Inr nd"
      and r: "unpack_items items (Suc idx) pfx slot (dict_update d nd) = Inr r"
      by (auto split: sum.splits)
    from 12(1) nd have nd_eq: "nd = dict_update [] (keyed (index_key pfx slot idx) (leaves (Msg fs)))"
      by blast
    have "dict_update d nd = dict_update d (keyed (index_key pfx slot idx) (leaves (Msg fs)))"
      unfolding nd_eq by (simp add: dict_update_absorb)
    moreover from 12(2)[OF nd] r
    have "r = dict_update (dict_update d nd) (keyed (pfx @ slot) (item_leaves items (Suc idx)))"
      by blast
    ultimately show "r = dict_update d (keyed (pfx @ slot) (item_leaves (Msg fs # items) idx))"
      by (simp add: keyed_append keyed_under dict_update_append index_key_def)
  qed
qed (simp_all add: keyed_def path_key_def index_key_def)

lemma unpack_total:
  "slots_set msg \<longrightarrow> (\<exists>r. unpack_message msg pfx = Inr r)"
  "slots_set_fields slots \<longrightarrow> (\<exists>r. unpack_slots slots pfx d = Inr r)"
  "slots_set_items items \<longrightarrow> (\<exists>r. unpack_items items idx pfx slot d = Inr r)"
proof (induction msg pfx and slots pfx d and items idx pfx slot d
    rule: unpack_message_unpack_slots_unpack_items.induct)
  case (7 slot fs rest pfx d)
  then show ?case by (auto split: sum.splits)
next
  case (8 slot items rest pfx d)
  then show ?case by (auto split: sum.splits)
next
  case (12 fs items idx pfx slot d)
  then show ?case by (auto split: sum.splits)
qed auto

lemma keys_keyed: "fst ` set (keyed pfx ls) = path_key pfx ` fst ` set ls"
  by (force simp: keyed_def)

lemma path_key_prefix: "prefix pfx (path_key pfx p)"
  by (simp add: path_key_def)

lemma keyed_keys_prefix: "k \<in> fst ` set (keyed pfx ls) \<Longrightarrow> prefix pfx k"
  by (auto simp: keys_keyed path_key_prefix)

lemma keyed_single: "keyed pfx [([s], v)] = [(pfx @ step_str s, v)]"
  by (simp add: keyed_def path_key_def)

lemma keyed_Cons: "keyed pfx ((p, v) # ls) = (path_key pfx p, v) # keyed pfx ls"
  by (simp add: keyed_def)

lemma leaves_keys_shape:
  "k \<in> fst ` set (keyed pfx (leaves msg)) \<longrightarrow> prefix pfx k"
  "k \<in> fst ` set (keyed pfx (slot_leaves slots)) \<longrightarrow>
     (\<exists>n \<in> set (map fst slots). prefix (pfx @ n) k)"
  "k \<in> fst ` set (keyed q (item_leaves items idx)) \<longrightarrow>
     (\<exists>j \<ge> idx. prefix (q @ step_str (Index j)) k)"
proof (induction msg and slots and items idx arbitrary: pfx and pfx and q
    rule: leaves_slot_leaves_item_leaves.induct)
  case (1 slots)
  then show ?case by (auto simp: keyed_keys_prefix)
next
  case (7 slot fs rest)
  then show ?case
    using keyed_keys_prefix [of k "pfx @ slot" "leaves (Msg fs)"]
    by (auto simp: keyed_append keyed_under image_Un simp del: leaves.simps)
next
  case (8 slot items rest)
  then show ?case
    using keyed_keys_prefix [of k "pfx @ slot" "item_leaves items 0"]
    by (auto simp: keyed_append keyed_under image_Un)
next
  case (9 slot s rest)
  then show ?case by (auto simp: keyed_Cons path_key_def)
next
  case (10 slot u rest)
  then show ?case by (auto simp: keyed_Cons path_key_def)
next
  case (12 fs items idx)
  show ?case
  proof
    assume "k \<in> fst ` set (keyed q (item_leaves (Msg fs # items) idx))"
    then consider (a) "k \<in> fst ` set (keyed (q @ step_str (Index idx)) (leaves (Msg fs)))"
      | (b) "k \<in> fst ` set (keyed q (item_leaves items (Suc idx)))"
      by (auto simp: keyed_append keyed_under image_Un simp del: leaves.simps step_str.simps)
    then show "\<exists>j\<ge>idx. prefix (q @ step_str (Index j)) k"
    proof cases
      case a
      then have "prefix (q @ step_str (Index idx)) k" by (rule keyed_keys_prefix)
      then show ?thesis by blast
    next
      case b
      with 12(2) obtain j where "Suc idx \<le> j" "prefix (q @ step_str (Index j)) k" by blast
      then show ?thesis using Suc_leD by blast
    qed
  qed
next
  case (13 xs items idx)
  show ?case
  proof
    assume "k \<in> fst ` set (keyed q (item_leaves (PList xs # items) idx))"
    then consider (a) "k = q @ step_str (Index idx)"
      | (b) "k \<in> fst ` set (keyed q (item_leaves items (Suc idx)))"
      by (auto simp: keyed_Cons path_key_def simp del: step_str.simps)
    then show "\<exists>j\<ge>idx. prefix (q @ step_str (Index j)) k"
    proof cases
      case a
      then show ?thesis by blast
    next
      case b
      with 13 obtain j where "Suc idx \<le> j" "prefix (q @ step_str (Index j)) k" by blast
      then show ?thesis using Suc_leD by blast
    qed
  qed
next
  case (14 s items idx)
  show ?case
  proof
    assume "k \<in> fst ` set (keyed q (item_leaves (Scalar s # items) idx))"
    then consider (a) "k = q @ step_str (Index idx)"
      | (b) "k \<in> fst ` set (keyed q (item_leaves items (Suc idx)))"
      by (auto simp: keyed_Cons path_key_def simp del: step_str.simps)
    then show "\<exists>j\<ge>idx. prefix (q @ step_str (Index j)) k"
    proof cases
      case a
      then show ?thesis by blast
    next
      case b
      with 14 obtain j where "Suc idx \<le> j" "prefix (q @ step_str (Index j)) k" by blast
      then show ?thesis using Suc_leD by blast
    qed
  qed
next
  case (15 u items idx)
  show ?case
  proof
    assume "k \<in> fst ` set (keyed q (item_leaves (Unknown u # items) idx))"
    then consider (a) "k = q @ step_str (Index idx)"
      | (b) "k \<in> fst ` set (keyed q (item_leaves items (Suc idx)))"
      by (auto simp: keyed_Cons path_key_def simp del: step_str.simps)
    then show "\<exists>j\<ge>idx. prefix (q @ step_str (Index j)) k"
    proof cases
      case a
      then show ?thesis by blast
    next
      case b
      with 15 obtain j where "Suc idx \<le> j" "prefix (q @ step_str (Index j)) k" by blast
      then show ?thesis using Suc_leD by blast
    qed
  qed
qed (simp_all add: keyed_def)

lemma incomparable_iff: "incomparable n ms \<longleftrightarrow> (\<forall>m \<in> set ms. \<not> prefix n m \<and> \<not> prefix m n)"
  by (induction ms) auto

lemma common_prefix_comparable:
  assumes "prefix (p @ a) k" and "prefix (p @ b) k"
  shows "prefix a b \<or> prefix b a"
proof -
  from assms have "prefix (p @ a) (p @ b) \<or> prefix (p @ b) (p @ a)"
    by (rule prefix_same_cases)
  then show ?thesis by simp
qed

lemma index_prefix_same:
  assumes "prefix (q @ step_str (Index i)) k" and "prefix (q @ step_str (Index j)) k"
  shows "i = j"
proof -
  from assms(1) obtain x where x: "k = (q @ step_str (Index i)) @ x" by (rule prefixE)
  from assms(2) obtain y where y: "k = (q @ step_str (Index j)) @ y" by (rule prefixE)
  from x y have "(q @ step_str (Index i)) @ x = (q @ step_str (Index j)) @ y" by simp
  then have "''['' @ str_nat i @ '']'' @ x = ''['' @ str_nat j @ '']'' @ y" by simp
  then show ?thesis by (rule index_suffix_inj [THEN conjunct1])
qed

lemma leaves_keys_distinct:
  "prefix_free msg \<longrightarrow> distinct (map fst (keyed pfx (leaves msg)))"
  "prefix_free_slots slots \<longrightarrow> distinct (map fst (keyed pfx (slot_leaves slots)))"
  "prefix_free_items items \<longrightarrow> distinct (map fst (keyed q (item_leaves items idx)))"
proof (induction msg and slots and items idx arbitrary: pfx and pfx and q
    rule: leaves_slot_leaves_item_leaves.induct)
  case (7 slot fs rest)
  show ?case
  proof
    assume pf: "prefix_free_slots ((slot, Some (Msg fs)) # rest)"
    have disj: "fst ` set (keyed (pfx @ slot) (leaves (Msg fs))) \<inter>
        fst ` set (keyed pfx (slot_leaves rest)) = {}"
    proof (rule ccontr)
      assume "\<not> ?thesis"
      then obtain k where k1: "k \<in> fst ` set (keyed (pfx @ slot) (leaves (Msg fs)))"
        and k2: "k \<in> fst ` set (keyed pfx (slot_leaves rest))" by blast
      from k1 have "prefix (pfx @ slot) k" by (rule keyed_keys_prefix)
      moreover from k2 leaves_keys_shape(2) obtain n where "n \<in> set (map fst rest)"
        "prefix (pfx @ n) k" by blast
      ultimately show False using pf common_prefix_comparable [of pfx slot k n]
        by (auto simp: incomparable_iff)
    qed
    from pf 7 have "distinct (map fst (keyed (pfx @ slot) (leaves (Msg fs))))"
      "distinct (map fst (keyed pfx (slot_leaves rest)))" by auto
    with disj show "distinct (map fst (keyed pfx (slot_leaves ((slot, Some (Msg fs)) # rest))))"
      by (simp add: keyed_append keyed_under del: leaves.simps)
  qed
next
  case (8 slot items rest)
  show ?case
  proof
    assume pf: "prefix_free_slots ((slot, Some (PList items)) # rest)"
    have disj: "fst ` set (keyed (pfx @ slot) (item_leaves items 0)) \<inter>
        fst ` set (keyed pfx (slot_leaves rest)) = {}"
    proof (rule ccontr)
      assume "\<not> ?thesis"
      then obtain k where k1: "k \<in> fst ` set (keyed (pfx @ slot) (item_leaves items 0))"
        and k2: "k \<in> fst ` set (keyed pfx (slot_leaves rest))" by blast
      from k1 have "prefix (pfx @ slot) k" by (rule keyed_keys_prefix)
      moreover from k2 leaves_keys_shape(2) obtain n where "n \<in> set (map fst rest)"
        "prefix (pfx @ n) k" by blast
      ultimately show False using pf common_prefix_comparable [of pfx slot k n]
        by (auto simp: incomparable_iff)
    qed
    from pf 8 have "distinct (map fst (keyed (pfx @ slot) (item_leaves items 0)))"
      "distinct (map fst (keyed pfx (slot_leaves rest)))" by auto
    with disj show "distinct (map fst (keyed pfx (slot_leaves ((slot, Some (PList items)) # rest))))"
      by (simp add: keyed_append keyed_under)
  qed
next
  case (9 slot s rest)
  show ?case
  proof
    assume pf: "prefix_free_slots ((slot, Some (Scalar s)) # rest)"
    have "pfx @ slot \<notin> fst ` set (keyed pfx (slot_leaves rest))"
    proof
      assume "pfx @ slot \<in> fst ` set (keyed pfx (slot_leaves rest))"
      with leaves_keys_shape(2) obtain n where "n \<in> set (map fst rest)"
        "prefix (pfx @ n) (pfx @ slot)" by blast
      with pf show False by (auto simp: incomparable_iff)
    qed
    with pf 9 show "distinct (map fst (keyed pfx (slot_leaves ((slot, Some (Scalar s)) # rest))))"
      by (simp add: keyed_Cons path_key_def)
  qed
next
  case (10 slot u rest)
  show ?case
  proof
    assume pf: "prefix_free_slots ((slot, Some (Unknown u)) # rest)"
    have "pfx @ slot \<notin> fst ` set (keyed pfx (slot_leaves rest))"
    proof
      assume "pfx @ slot \<in> fst ` set (keyed pfx (slot_leaves rest))"
      with leaves_keys_shape(2) obtain n where "n \<in> set (map fst rest)"
        "prefix (pfx @ n) (pfx @ slot)" by blast
      with pf show False by (auto simp: incomparable_iff)
    qed
    with pf 10 show "distinct (map fst (keyed pfx (slot_leaves ((slot, Some (Unknown u)) # rest))))"
      by (simp add: keyed_Cons path_key_def)
  qed
next
  case (12 fs items idx)
  show ?case
  proof
    assume pf: "prefix_free_items (Msg fs # items)"
    have disj: "fst ` set (keyed (q @ step_str (Index idx)) (leaves (Msg fs))) \<inter>
        fst ` set (keyed q (item_leaves items (Suc idx))) = {}"
    proof (rule ccontr)
      assume "\<not> ?thesis"
      then obtain k where k1: "k \<in> fst ` set (keyed (q @ step_str (Index idx)) (leaves (Msg fs)))"
        and k2: "k \<in> fst ` set (keyed q (item_leaves items (Suc idx)))" by blast
      from k1 have "prefix (q @ step_str (Index idx)) k" by (rule keyed_keys_prefix)
      moreover from k2 leaves_keys_shape(3) obtain j where "Suc idx \<le> j"
        "prefix (q @ step_str (Index j)) k" by blast
      ultimately show False using index_prefix_same [of q idx k j] by simp
    qed
    from pf 12 have "distinct (map fst (keyed (q @ step_str (Index idx)) (leaves (Msg fs))))"
      "distinct (map fst (keyed q (item_leaves items (Suc idx))))" by auto
    with disj show "distinct (map fst (keyed q (item_leaves (Msg fs # items) idx)))"
      by (simp add: keyed_append keyed_under del: leaves.simps step_str.simps)
  qed
next
  case (13 xs items idx)
  show ?case
  proof
    assume pf: "prefix_free_items (PList xs # items)"
    have "q @ step_str (Index idx) \<notin> fst ` set (keyed q (item_leaves items (Suc idx)))"
    proof
      assume "q @ step_str (Index idx) \<in> fst ` set (keyed q (item_leaves items (Suc idx)))"
      with leaves_keys_shape(3) obtain j where "Suc idx \<le> j"
        "prefix (q @ step_str (Index j)) (q @ step_str (Index idx))" by blast
      then show False using index_prefix_same [of q idx "q @ step_str (Index idx)" j] by simp
    qed
    with pf 13 show "distinct (map fst (keyed q (item_leaves (PList xs # items) idx)))"
      by (simp add: keyed_Cons path_key_def del: step_str.simps)
  qed
next
  case (14 s items idx)
  show ?case
  proof
    assume pf: "prefix_free_items (Scalar s # items)"
    have "q @ step_str (Index idx) \<notin> fst ` set (keyed q (item_leaves items (Suc idx)))"
    proof
      assume "q @ step_str (Index idx) \<in> fst ` set (keyed q (item_leaves items (Suc idx)))"
      with leaves_keys_shape(3) obtain j where "Suc idx \<le> j"
        "prefix (q @ step_str (Index j)) (q @ step_str (Index idx))" by blast
      then show False using index_prefix_same [of q idx "q @ step_str (Index idx)" j] by simp
    qed
    with pf 14 show "distinct (map fst (keyed q (item_leaves (Scalar s # items) idx)))"
      by (simp add: keyed_Cons path_key_def del: step_str.simps)
  qed
next
  case (15 u items idx)
  show ?case
  proof
    assume pf: "prefix_free_items (Unknown u # items)"
    have "q @ step_str (Index idx) \<notin> fst ` set (keyed q (item_leaves items (Suc idx)))"
    proof
      assume "q @ step_str (Index idx) \<in> fst ` set (keyed q (item_leaves items (Suc idx)))"
      with leaves_keys_shape(3) obtain j where "Suc idx \<le> j"
        "prefix (q @ step_str (Index j)) (q @ step_str (Index idx))" by blast
      then show False using index_prefix_same [of q idx "q @ step_str (Index idx)" j] by simp
    qed
    with pf 15 show "distinct (map fst (keyed q (item_leaves (Unknown u # items) idx)))"
      by (simp add: keyed_Cons path_key_def del: step_str.simps)
  qed
qed (simp_all add: keyed_def)


text \<open>
  What \<open>unpack_message\<close> returns, when it returns: the assignments of \<open>leaves\<close>, made
  in order into an empty dictionary.
\<close>

lemma unpack_message_leaves:
  "unpack_message msg pfx = Inr r \<Longrightarrow> r = dict_update [] (keyed pfx (leaves msg))"
  using unpack_leaves_aux(1) by blast

lemma unpack_message_total: "slots_set msg \<Longrightarrow> \<exists>r. unpack_message msg pfx = Inr r"
  using unpack_total(1) by blast

lemma positions_unpacked:
  "unpack_message positions_msg ''pose'' = Inr
     [(''posepositions[0]x'', Scalar (SInt 1)), (''posepositions[0]y'', Scalar (SInt 2)),
      (''posepositions[1]x'', Scalar (SInt 3)), (''posepositions[1]y'', Scalar (SInt 4))]"
  by (simp add: positions_msg_def index_key_def str_nat_0 str_nat_1)

section \<open>Column keys\<close>

text \<open>
  C1, as stated, fails: in \<open>colliding_msg\<close> the paths \<open>a, bc\<close> and \<open>ab, c\<close> are
  different and both are spelled \<open>abc\<close>, since the code puts nothing between the names;
  the Series has one column, holding the value of the second path.
\<close>

theorem colliding_paths_share_key:
  "map fst (leaves colliding_msg) = [[Field ''a'', Field ''bc''], [Field ''ab'', Field ''c'']]
   \<and> path_key [] [Field ''a'', Field ''bc''] = path_key [] [Field ''ab'', Field ''c'']
   \<and> unpack_message colliding_msg [] = Inr [(''abc'', Scalar (SInt 2))]"
  by (simp add: colliding_msg_def under_def path_key_def)

text \<open>
  C1, amended. When no slot name of a message is a prefix of the name of a sibling slot,
  anywhere in the tree, different paths get different keys: the paths of the leaves are
  pairwise different, \<open>path_key\<close> is injective on them, and the Series that
  \<open>unpack_message\<close> returns has one column for every leaf, in traversal order, its keys
  pairwise different.
\<close>

theorem prefix_free_keys_distinct:
  assumes "prefix_free msg" and "unpack_message msg pfx = Inr r"
  shows "distinct (map fst (leaves msg))
    \<and> inj_on (path_key pfx) (fst ` set (leaves msg))
    \<and> r = keyed pfx (leaves msg)
    \<and> distinct (map fst r)"
proof -
  from assms(1) have d: "distinct (map fst (keyed pfx (leaves msg)))"
    using leaves_keys_distinct(1) by blast
  then have "distinct (map (path_key pfx) (map fst (leaves msg)))"
    by (simp add: keyed_def comp_def)
  then have "distinct (map fst (leaves msg))"
    and "inj_on (path_key pfx) (set (map fst (leaves msg)))"
    by (simp_all only: distinct_map)
  moreover from assms(2) have "r = dict_update [] (keyed pfx (leaves msg))"
    by (rule unpack_message_leaves)
  with d have "r = keyed pfx (leaves msg)" by (simp add: dict_update_fresh)
  ultimately show ?thesis using d by simp
qed

theorem prefix_free_keys_distinct_witness:
  "prefix_free positions_msg
   \<and> unpack_message positions_msg ''pose'' = Inr
       [(''posepositions[0]x'', Scalar (SInt 1)), (''posepositions[0]y'', Scalar (SInt 2)),
        (''posepositions[1]x'', Scalar (SInt 3)), (''posepositions[1]y'', Scalar (SInt 4))]
   \<and> distinct [''posepositions[0]x'', ''posepositions[0]y'',
        ''posepositions[1]x'', ''posepositions[1]y'']"
proof -
  have a: "prefix_free positions_msg" by (simp add: positions_msg_def)
  from prefix_free_keys_distinct [OF a positions_unpacked] a positions_unpacked
  show ?thesis by simp
qed

text \<open>
  C3, as stated, fails: for the message \<open>{a: {b: 1}}\<close> and the prefix \<open>p\<close> the only
  key is \<open>pab\<close>; no \<open>.\<close> stands between the field \<open>a\<close> and the field \<open>b\<close> of
  its nested message.
\<close>

theorem nested_key_has_no_dot:
  "unpack_message nested_msg ''p'' = Inr [(''pab'', Scalar (SInt 1))]
   \<and> CHR ''.'' \<notin> set ''pab''"
  by (simp add: nested_msg_def)

text \<open>
  C3, amended. The keys of the Series are exactly the strings \<open>path_key\<close> builds for
  the paths of the leaves: the prefix, the field names and the indices concatenated, an
  index written \<open>[i]\<close>, and no separator between a field and the fields of its nested
  message.
\<close>

theorem keys_are_concatenated_paths:
  assumes "unpack_message msg pfx = Inr r"
  shows "fst ` set r = path_key pfx ` fst ` set (leaves msg)"
proof -
  from assms have "r = dict_update [] (keyed pfx (leaves msg))"
    by (rule unpack_message_leaves)
  then show ?thesis by (simp add: dict_update_keys keys_keyed)
qed

theorem keys_are_concatenated_paths_witness:
  "unpack_message nested_msg ''p'' = Inr [(''pab'', Scalar (SInt 1))]
   \<and> {''pab''} = {path_key ''p'' [Field ''a'', Field ''b'']}"
proof -
  have a: "unpack_message nested_msg ''p'' = Inr [(''pab'', Scalar (SInt 1))]"
    by (simp add: nested_msg_def)
  from keys_are_concatenated_paths [OF a] a show ?thesis
    by (simp add: nested_msg_def under_def)
qed

text \<open>
  C10. Every key of the Series that \<open>unpack_message\<close> returns for a message and a
  prefix begins with that prefix.
\<close>

theorem keys_begin_with_prefix:
  assumes "unpack_message msg pfx = Inr r" and "k \<in> fst ` set r"
  shows "prefix pfx k"
proof -
  from assms(1) have "r = dict_update [] (keyed pfx (leaves msg))"
    by (rule unpack_message_leaves)
  with assms(2) have "k \<in> fst ` set (keyed pfx (leaves msg))"
    by (simp add: dict_update_keys)
  then show ?thesis by (rule keyed_keys_prefix)
qed

theorem keys_begin_with_prefix_witness:
  "unpack_message positions_msg ''pose'' = Inr
       [(''posepositions[0]x'', Scalar (SInt 1)), (''posepositions[0]y'', Scalar (SInt 2)),
        (''posepositions[1]x'', Scalar (SInt 3)), (''posepositions[1]y'', Scalar (SInt 4))]
   \<and> prefix ''pose'' ''posepositions[1]y''"
proof -
  have "''posepositions[1]y'' \<in> fst ` set
       [(''posepositions[0]x'', Scalar (SInt 1)), (''posepositions[0]y'', Scalar (SInt 2)),
        (''posepositions[1]x'', Scalar (SInt 3)), (''posepositions[1]y'', Scalar (SInt 4))]"
    by simp
  from keys_begin_with_prefix [OF positions_unpacked this] positions_unpacked
  show ?thesis by simp
qed

section \<open>Unknown shapes\<close>

text \<open>
  C6. An input that is neither a scalar, nor a message with slots, nor a list has no
  \<open>__slots__\<close>: \<open>unpack_message\<close> returns the empty Series for it, whatever the
  prefix, and raises nothing.
\<close>

theorem unpack_message_unknown_empty:
  "unpack_message (Unknown u) pfx = Inr []"
  by simp

section \<open>List fields\<close>










section \<open>Merging tables\<close>




















section \<open>The table of a topic\<close>













section \<open>A bag that does not open\<close>







section \<open>The opt-out marker\<close>







end
